theory Spec2Isabelle
  imports
    Main
    "HOL-Library.AList"
    "HOL-Library.Multiset"
    "HOL-Library.Char_ord"
    "HOL-Library.List_Lexorder"
    "HOL-Library.Product_Lexorder"
begin

section \<open>Data of main.py\<close>

text \<open>
  A record of the DNSPod reply is a JSON object; only its string fields \<open>name\<close>,
  \<open>type\<close> and \<open>value\<close> are read. It is an association list from field names to
  values, so that a field can be missing and \<open>record['type']\<close> can raise KeyError.
\<close>

type_synonym raw_record = "(string \<times> string) list"

datatype error = KeyError string

text \<open>The dict \<open>{"type": ..., "value": ...}\<close> built at lines 133-136.\<close>

record record_info =
  rtype :: string
  rvalue :: string

text \<open>
  \<open>previous_records_state\<close> and \<open>current_records_state\<close>: a Python dict from the
  subdomain to the list of its records, as an association list in insertion order.
\<close>

type_synonym records_state = "(string \<times> record_info list) list"

record config =
  domain :: string
  token :: string
  names :: "string list"
  telegram_bot_token :: string
  telegram_chat_id :: string

text \<open>The lines the script prints, one constructor for each \<open>print\<close>.\<close>

datatype log =
    LogStart string
  | LogApiError
  | LogRequestError
  | LogJsonError
  | LogFetchFailed
  | LogFirstRun
  | LogInitDone
  | LogChanged
  | LogSubdomainChanged string
  | LogNoChange
  | LogTelegramSent
  | LogTelegramFailed
  | LogTelegramRequestError

section \<open>Dict operations\<close>

text \<open>\<open>d.get(k, dflt)\<close>.\<close>

definition dict_get :: "('k \<times> 'v) list \<Rightarrow> 'k \<Rightarrow> 'v \<Rightarrow> 'v" where
  "dict_get d k dflt = (case map_of d k of None \<Rightarrow> dflt | Some v \<Rightarrow> v)"

text \<open>\<open>d[k]\<close>, which raises KeyError on a missing key.\<close>

definition getitem :: "raw_record \<Rightarrow> string \<Rightarrow> error + string" where
  "getitem d k = (case map_of d k of None \<Rightarrow> Inl (KeyError k) | Some v \<Rightarrow> Inr v)"

text \<open>
  \<open>a == b\<close> on dicts: the same keys, and at each key equal values (the lists are
  compared element by element, in order).
\<close>

definition dict_eq :: "('k \<times> 'v) list \<Rightarrow> ('k \<times> 'v) list \<Rightarrow> bool" where
  "dict_eq a b \<longleftrightarrow>
     set (map fst a) = set (map fst b) \<and> list_all (\<lambda>k. map_of a k = map_of b k) (map fst a)"

section \<open>get_dnspod_records (lines 64-98)\<close>

text \<open>
  What \<open>requests.post\<close> and \<open>response.json()\<close> give: a RequestException (network
  error, or the HTTPError of \<open>raise_for_status\<close>), a body that is not JSON, or a JSON
  object of which the function reads \<open>status.code\<close> and \<open>records\<close>, each possibly
  missing (\<open>None\<close>). The code is a string and the records, when present, are a list
  of objects with string fields, as DNSPod sends them.
\<close>

datatype dnspod_reply =
    RequestException
  | JSONDecodeError
  | Result "string option" "raw_record list option"

fun get_dnspod_records :: "dnspod_reply \<Rightarrow> raw_record list option \<times> log list" where
  "get_dnspod_records (Result code records) =
     (if code = Some ''1''
      then (Some (case records of None \<Rightarrow> [] | Some rs \<Rightarrow> rs), [])
      else (None, [LogApiError]))"
| "get_dnspod_records RequestException = (None, [LogRequestError])"
| "get_dnspod_records JSONDecodeError = (None, [LogJsonError])"

section \<open>send_telegram_message (lines 45-62)\<close>

text \<open>
  The reply of the Telegram API to one \<open>requests.post\<close>: a RequestException, or a
  response with its status code and the truth value of the \<open>ok\<close> field of its body.
  The function catches the exception and returns nothing: all it leaves is a log line.
  The message it posts is kept by the caller below, in \<open>notified\<close>.
\<close>

datatype telegram_reply =
    TelegramRequestException
  | TelegramResponse nat bool

fun send_telegram_message :: "telegram_reply \<Rightarrow> log" where
  "send_telegram_message (TelegramResponse status_code ok) =
     (if status_code = 200 \<and> ok then LogTelegramSent else LogTelegramFailed)"
| "send_telegram_message TelegramRequestException = LogTelegramRequestError"

section \<open>format_records_for_display (lines 100-108)\<close>

text \<open>
  \<open>sorted(records_list, key=lambda x: (x['type'], x['value']))\<close>: a stable sort on the
  pair, strings compared character by character.
\<close>

definition sort_records :: "record_info list \<Rightarrow> record_info list" where
  "sort_records records_list = sort_key (\<lambda>x. (rtype x, rvalue x)) records_list"

text \<open>
  The text shown for a record list: a fixed word for the empty list, else one line for
  each record of the sorted list. The lines are kept as the records they print.
\<close>

datatype display = NoRecords | Lines "record_info list"

definition format_records_for_display :: "record_info list \<Rightarrow> display" where
  "format_records_for_display records_list =
     (if records_list = [] then NoRecords else Lines (sort_records records_list))"

section \<open>check_for_changes (lines 110-182)\<close>

subsection \<open>Building the current state (lines 128-139)\<close>

text \<open>The body of the loop over \<open>all_records\<close>, for one record.\<close>

definition add_record :: "string list \<Rightarrow> records_state \<Rightarrow> raw_record \<Rightarrow> error + records_state" where
  "add_record names_to_monitor current_records_state record =
     (case getitem record ''name'' of
        Inl e \<Rightarrow> Inl e
      | Inr subdomain \<Rightarrow>
          if subdomain \<in> set names_to_monitor then
            (case getitem record ''type'' of
               Inl e \<Rightarrow> Inl e
             | Inr t \<Rightarrow>
                 (case getitem record ''value'' of
                    Inl e \<Rightarrow> Inl e
                  | Inr v \<Rightarrow>
                      let info = \<lparr>rtype = t, rvalue = v\<rparr>;
                          state1 =
                            (if map_of current_records_state subdomain = None
                             then AList.update subdomain [] current_records_state
                             else current_records_state)
                      in Inr (AList.update subdomain (dict_get state1 subdomain [] @ [info]) state1)))
          else Inr current_records_state)"

fun add_records :: "string list \<Rightarrow> records_state \<Rightarrow> raw_record list \<Rightarrow> error + records_state" where
  "add_records names_to_monitor state [] = Inr state"
| "add_records names_to_monitor state (record # all_records) =
     (case add_record names_to_monitor state record of
        Inl e \<Rightarrow> Inl e
      | Inr state' \<Rightarrow> add_records names_to_monitor state' all_records)"

definition build_current_records_state :: "string list \<Rightarrow> raw_record list \<Rightarrow> error + records_state" where
  "build_current_records_state names_to_monitor all_records =
     add_records names_to_monitor [] all_records"

subsection \<open>Comparing with the previous state (lines 141-182)\<close>

text \<open>
  The notification built at lines 161-170: the full domain and the two record lists as
  \<open>format_records_for_display\<close> shows them.
\<close>

record message =
  full_domain :: string
  old_display :: display
  new_display :: display

text \<open>
  What the loop body holds for a name whose lists differ: \<open>name\<close>, \<open>old_list\<close> and
  \<open>new_list\<close>.
\<close>

record change_event =
  ev_name :: string
  ev_old :: "record_info list"
  ev_new :: "record_info list"

definition build_message :: "config \<Rightarrow> change_event \<Rightarrow> message" where
  "build_message cfg ev =
     \<lparr>full_domain = ev_name ev @ ''.'' @ domain cfg,
      old_display = format_records_for_display (ev_old ev),
      new_display = format_records_for_display (ev_new ev)\<rparr>"

text \<open>
  \<open>set(previous.keys()) | set(current.keys())\<close> and the order in which the \<open>for\<close>
  loop goes through it. Python iterates a set of strings in the order of their hashes,
  which changes from one process to the next; \<open>rank\<close> stands for it, and every order
  of the names is the order of some \<open>rank\<close>.
\<close>

definition all_monitored_names :: "(string \<Rightarrow> nat) \<Rightarrow> records_state \<Rightarrow> records_state \<Rightarrow> string list" where
  "all_monitored_names rank previous current =
     sort_key rank (remdups (map fst previous @ map fst current))"

text \<open>
  The loop of lines 155-177 over the names. \<open>i\<close> counts the messages sent so far in
  this call; \<open>telegram i\<close> is the reply of the Telegram API to the next one.
\<close>

fun compare_names ::
  "config \<Rightarrow> (nat \<Rightarrow> telegram_reply) \<Rightarrow> records_state \<Rightarrow> records_state \<Rightarrow> nat \<Rightarrow> string list
     \<Rightarrow> change_event list \<times> log list" where
  "compare_names cfg telegram previous current i [] = ([], [])"
| "compare_names cfg telegram previous current i (name # rest) =
     (let old_list = sort_records (dict_get previous name []);
          new_list = sort_records (dict_get current name [])
      in if old_list \<noteq> new_list then
           (let ev = \<lparr>ev_name = name, ev_old = old_list, ev_new = new_list\<rparr>;
                sent = send_telegram_message (telegram i);
                (evs, lg) = compare_names cfg telegram previous current (Suc i) rest
            in (ev # evs, LogSubdomainChanged (name @ ''.'' @ domain cfg) # sent # lg))
         else compare_names cfg telegram previous current i rest)"

text \<open>
  The result of one call: the value of \<open>previous_records_state\<close> when it returns, the
  names found changed, the messages handed to \<open>send_telegram_message\<close>, and the lines
  printed.
\<close>

record cycle_result =
  new_state :: records_state
  events :: "change_event list"
  notified :: "message list"
  logs :: "log list"

definition detect ::
  "config \<Rightarrow> (string \<Rightarrow> nat) \<Rightarrow> (nat \<Rightarrow> telegram_reply) \<Rightarrow> records_state \<Rightarrow> records_state
     \<Rightarrow> cycle_result" where
  "detect cfg rank telegram current_records_state previous_records_state =
     (if previous_records_state = [] then
        \<lparr>new_state = current_records_state, events = [], notified = [],
         logs = [LogFirstRun, LogInitDone]\<rparr>
      else if \<not> dict_eq current_records_state previous_records_state then
        (let (evs, lg) =
               compare_names cfg telegram previous_records_state current_records_state 0
                 (all_monitored_names rank previous_records_state current_records_state)
         in \<lparr>new_state = current_records_state, events = evs,
             notified = map (build_message cfg) evs, logs = LogChanged # lg\<rparr>)
      else
        \<lparr>new_state = previous_records_state, events = [], notified = [],
         logs = [LogNoChange]\<rparr>)"

subsection \<open>The whole function\<close>

text \<open>
  A KeyError of the builder leaves the function before \<open>previous_records_state\<close> is
  assigned; the main loop then ends the process.
\<close>

definition check_for_changes ::
  "config \<Rightarrow> dnspod_reply \<Rightarrow> (string \<Rightarrow> nat) \<Rightarrow> (nat \<Rightarrow> telegram_reply) \<Rightarrow> records_state
     \<Rightarrow> error + cycle_result" where
  "check_for_changes cfg reply rank telegram previous_records_state =
     (case get_dnspod_records reply of
        (None, lg) \<Rightarrow>
          Inr \<lparr>new_state = previous_records_state, events = [], notified = [],
               logs = LogStart (domain cfg) # lg @ [LogFetchFailed]\<rparr>
      | (Some all_records, lg) \<Rightarrow>
          (case build_current_records_state (names cfg) all_records of
             Inl e \<Rightarrow> Inl e
           | Inr current_records_state \<Rightarrow>
               (let r = detect cfg rank telegram current_records_state previous_records_state
                in Inr (r\<lparr>logs := LogStart (domain cfg) # lg @ logs r\<rparr>))))"

subsection \<open>The main loop (lines 196-205)\<close>

text \<open>
  What one turn of the loop meets: the reply of DNSPod, the iteration order of the name
  set, and the replies of Telegram.
\<close>

record cycle_input =
  dnspod :: dnspod_reply
  set_order :: "string \<Rightarrow> nat"
  telegram_replies :: "nat \<Rightarrow> telegram_reply"

text \<open>
  The loop over a finite run of turns, from a given \<open>previous_records_state\<close> (at
  process start the empty dict of line 10). An exception ends the process.
\<close>

fun main_loop :: "config \<Rightarrow> records_state \<Rightarrow> cycle_input list \<Rightarrow> error + (records_state \<times> cycle_result list)" where
  "main_loop cfg state [] = Inr (state, [])"
| "main_loop cfg state (inp # rest) =
     (case check_for_changes cfg (dnspod inp) (set_order inp) (telegram_replies inp) state of
        Inl e \<Rightarrow> Inl e
      | Inr r \<Rightarrow>
          (case main_loop cfg (new_state r) rest of
             Inl e \<Rightarrow> Inl e
           | Inr (final, rs) \<Rightarrow> Inr (final, r # rs)))"

section \<open>Vocabulary of the properties\<close>

text \<open>The \<open>{type, value}\<close> pair of a raw record, when it has both fields.\<close>

definition record_info_of :: "raw_record \<Rightarrow> record_info option" where
  "record_info_of r =
     (case map_of r ''type'' of
        None \<Rightarrow> None
      | Some t \<Rightarrow> (case map_of r ''value'' of None \<Rightarrow> None | Some v \<Rightarrow> Some \<lparr>rtype = t, rvalue = v\<rparr>))"

text \<open>The records of the list that carry a given name, in their order.\<close>

definition records_named :: "string \<Rightarrow> raw_record list \<Rightarrow> raw_record list" where
  "records_named n all_records = filter (\<lambda>r. map_of r ''name'' = Some n) all_records"

text \<open>A raw record with the three fields that the provider promises.\<close>

definition well_formed :: "raw_record \<Rightarrow> bool" where
  "well_formed r \<longleftrightarrow>
     map_of r ''name'' \<noteq> None \<and> map_of r ''type'' \<noteq> None \<and> map_of r ''value'' \<noteq> None"

text \<open>
  The records on which a lookup fails: no \<open>name\<close>, or a monitored name and no
  \<open>type\<close> or no \<open>value\<close>.
\<close>

definition lookup_fails :: "string list \<Rightarrow> raw_record \<Rightarrow> bool" where
  "lookup_fails ns r =
     (case map_of r ''name'' of
        None \<Rightarrow> True
      | Some n \<Rightarrow> n \<in> set ns \<and> (map_of r ''type'' = None \<or> map_of r ''value'' = None))"

text \<open>The test of line 160 for one name, and what the loop body then holds.\<close>

definition differs :: "records_state \<Rightarrow> records_state \<Rightarrow> string \<Rightarrow> bool" where
  "differs previous current name \<longleftrightarrow>
     sort_records (dict_get previous name []) \<noteq> sort_records (dict_get current name [])"

definition event_for :: "records_state \<Rightarrow> records_state \<Rightarrow> string \<Rightarrow> change_event" where
  "event_for previous current name =
     \<lparr>ev_name = name,
      ev_old = sort_records (dict_get previous name []),
      ev_new = sort_records (dict_get current name [])\<rparr>"

text \<open>
  The invariant of the stored state: every key is a monitored name and has at least one
  record.
\<close>

definition state_ok :: "string list \<Rightarrow> records_state \<Rightarrow> bool" where
  "state_ok ns st = list_all (\<lambda>(k, v). k \<in> set ns \<and> v \<noteq> []) st"

text \<open>The lines that \<open>send_telegram_message\<close> prints.\<close>

fun is_telegram_log :: "log \<Rightarrow> bool" where
  "is_telegram_log LogTelegramSent = True"
| "is_telegram_log LogTelegramFailed = True"
| "is_telegram_log LogTelegramRequestError = True"
| "is_telegram_log _ = False"

section \<open>Example inputs\<close>

definition cfg_example :: config where
  "cfg_example =
     \<lparr>domain = ''example.com'', token = ''id,key'', names = [''www'', ''api''],
      telegram_bot_token = ''bot'', telegram_chat_id = ''42''\<rparr>"

definition raw :: "string \<Rightarrow> string \<Rightarrow> string \<Rightarrow> raw_record" where
  "raw n t v = [(''name'', n), (''type'', t), (''value'', v)]"

definition a1 :: record_info where "a1 = \<lparr>rtype = ''A'', rvalue = ''1.1.1.1''\<rparr>"

definition a2 :: record_info where "a2 = \<lparr>rtype = ''A'', rvalue = ''2.2.2.2''\<rparr>"

text \<open>Telegram accepts every message; Telegram is unreachable, then answers 500.\<close>

definition telegram_ok :: "nat \<Rightarrow> telegram_reply" where
  "telegram_ok i = TelegramResponse 200 True"

definition telegram_down :: "nat \<Rightarrow> telegram_reply" where
  "telegram_down i = (if i = 0 then TelegramRequestException else TelegramResponse 500 False)"

text \<open>One turn of the main loop in which DNSPod answers with the given records.\<close>

definition turn :: "raw_record list \<Rightarrow> cycle_input" where
  "turn all_records =
     \<lparr>dnspod = Result (Some ''1'') (Some all_records), set_order = length,
      telegram_replies = telegram_ok\<rparr>"

section \<open>The builder\<close>

lemma add_record_fails_iff:
  "(\<exists>e. add_record ns st r = Inl e) \<longleftrightarrow> lookup_fails ns r"
  by (auto simp: add_record_def getitem_def Let_def lookup_fails_def
      split: option.splits if_splits sum.splits)

lemma add_record_other:
  "add_record ns st r = Inr st' \<Longrightarrow> \<not> (map_of r ''name'' = Some n \<and> n \<in> set ns) \<Longrightarrow>
   map_of st' n = map_of st n"
  by (auto simp: add_record_def getitem_def dict_get_def update_conv' Let_def
      split: option.splits if_splits sum.splits)

lemma add_record_same:
  "add_record ns st r = Inr st' \<Longrightarrow> map_of r ''name'' = Some n \<Longrightarrow> n \<in> set ns \<Longrightarrow>
   \<exists>info. record_info_of r = Some info \<and> map_of st' n = Some (dict_get st n [] @ [info])"
  by (auto simp: add_record_def getitem_def dict_get_def update_conv' Let_def record_info_of_def
      split: option.splits if_splits sum.splits)

lemma add_record_distinct:
  "add_record ns st r = Inr st' \<Longrightarrow> distinct (map fst st) \<Longrightarrow> distinct (map fst st')"
  by (auto simp: add_record_def getitem_def Let_def distinct_update
      split: option.splits if_splits sum.splits)

lemma add_records_fails_iff:
  "(\<exists>e. add_records ns st rs = Inl e) \<longleftrightarrow> list_ex (lookup_fails ns) rs"
proof (induction rs arbitrary: st)
  case Nil
  show ?case by simp
next
  case (Cons r rs)
  show ?case
  proof (cases "add_record ns st r")
    case (Inl e)
    then have "lookup_fails ns r" using add_record_fails_iff by blast
    with Inl show ?thesis by simp
  next
    case (Inr st')
    then have "\<not> lookup_fails ns r" using add_record_fails_iff [of ns st r] by auto
    with Inr Cons.IH [of st'] show ?thesis by simp
  qed
qed

lemma add_records_distinct:
  "add_records ns st rs = Inr cur \<Longrightarrow> distinct (map fst st) \<Longrightarrow> distinct (map fst cur)"
proof (induction rs arbitrary: st)
  case Nil
  then show ?case by simp
next
  case (Cons r rs)
  then show ?case
    by (auto split: sum.splits dest: add_record_distinct)
qed

lemma add_records_map_of:
  "add_records ns st rs = Inr cur \<Longrightarrow>
   (n \<in> set ns \<and> records_named n rs \<noteq> [] \<longrightarrow>
      (\<exists>es. map_of cur n = Some (dict_get st n [] @ es) \<and>
            map Some es = map record_info_of (records_named n rs))) \<and>
   (\<not> (n \<in> set ns \<and> records_named n rs \<noteq> []) \<longrightarrow> map_of cur n = map_of st n)"
proof (induction rs arbitrary: st)
  case Nil
  then show ?case by (simp add: records_named_def)
next
  case (Cons r rs)
  from Cons.prems obtain st' where step: "add_record ns st r = Inr st'"
    and rest: "add_records ns st' rs = Inr cur"
    by (auto split: sum.splits)
  note IH = Cons.IH [OF rest]
  show ?case
  proof (cases "map_of r ''name'' = Some n \<and> n \<in> set ns")
    case True
    from add_record_same [OF step] True obtain info where
      info: "record_info_of r = Some info" and st': "map_of st' n = Some (dict_get st n [] @ [info])"
      by blast
    have get': "dict_get st' n [] = dict_get st n [] @ [info]"
      by (simp add: dict_get_def st')
    show ?thesis
    proof (cases "records_named n rs = []")
      case True
      with IH have "map_of cur n = map_of st' n" by simp
      with st' info \<open>map_of r ''name'' = Some n \<and> n \<in> set ns\<close> True show ?thesis
        by (simp add: records_named_def)
    next
      case False
      with IH True obtain es where "map_of cur n = Some (dict_get st' n [] @ es)"
        and "map Some es = map record_info_of (records_named n rs)" by blast
      with get' info True show ?thesis
        by (auto simp: records_named_def intro!: exI [of _ "info # es"])
    qed
  next
    case False
    from add_record_other [OF step False] have same: "map_of st' n = map_of st n" .
    then have get': "dict_get st' n [] = dict_get st n []" by (simp add: dict_get_def)
    have named: "n \<in> set ns \<Longrightarrow> records_named n (r # rs) = records_named n rs"
      using False by (simp add: records_named_def)
    show ?thesis
      using IH same get' named by (auto simp: records_named_def)
  qed
qed

lemma build_map_of:
  assumes "build_current_records_state ns rs = Inr cur"
  shows "(n \<in> set ns \<and> records_named n rs \<noteq> [] \<longrightarrow>
            (\<exists>es. map_of cur n = Some es \<and> map Some es = map record_info_of (records_named n rs))) \<and>
         (\<not> (n \<in> set ns \<and> records_named n rs \<noteq> []) \<longrightarrow> map_of cur n = None)"
  using add_records_map_of [of ns "[]" rs cur n] assms
  by (simp add: build_current_records_state_def dict_get_def)

lemma build_distinct:
  "build_current_records_state ns rs = Inr cur \<Longrightarrow> distinct (map fst cur)"
  using add_records_distinct [of ns "[]" rs cur] by (simp add: build_current_records_state_def)

lemma build_entry:
  assumes "build_current_records_state ns rs = Inr cur" and "(n, es) \<in> set cur"
  shows "n \<in> set ns \<and> es \<noteq> []"
proof -
  have m: "map_of cur n = Some es"
    using build_distinct [OF assms(1)] assms(2) by simp
  have mon: "n \<in> set ns \<and> records_named n rs \<noteq> []"
    using build_map_of [OF assms(1), of n] m by auto
  with build_map_of [OF assms(1), of n] m
  have "map Some es = map record_info_of (records_named n rs)" by auto
  then have "length es = length (records_named n rs)"
    by (metis length_map)
  with mon show ?thesis by auto
qed

lemma build_total:
  "list_all well_formed rs \<Longrightarrow> \<exists>cur. build_current_records_state ns rs = Inr cur"
proof -
  assume wf: "list_all well_formed rs"
  have "\<not> list_ex (lookup_fails ns) rs"
    using wf by (auto simp: list_all_iff list_ex_iff well_formed_def lookup_fails_def split: option.splits)
  then have "\<not> (\<exists>e. add_records ns [] rs = Inl e)"
    using add_records_fails_iff [of ns "[]" rs] by simp
  then show ?thesis
    by (cases "add_records ns [] rs") (auto simp: build_current_records_state_def)
qed

lemma build_state_ok:
  "build_current_records_state ns rs = Inr cur \<Longrightarrow> state_ok ns cur"
  using build_entry [of ns rs cur] by (auto simp: state_ok_def list_all_iff)

section \<open>Sorting and comparing\<close>

lemma key_inj: "inj (\<lambda>x::record_info. (rtype x, rvalue x))"
  by (rule injI) simp

lemma sort_records_eq_iff:
  "sort_records xs = sort_records ys \<longleftrightarrow> mset xs = mset ys"
proof
  assume "sort_records xs = sort_records ys"
  then have "mset (sort_records xs) = mset (sort_records ys)" by simp
  then show "mset xs = mset ys" by (simp add: sort_records_def)
next
  assume m: "mset xs = mset ys"
  have "sort_key (\<lambda>x. (rtype x, rvalue x)) xs = sort_key (\<lambda>x. (rtype x, rvalue x)) ys"
  proof (rule sort_key_inj_key_eq)
    show "mset xs = mset (sort_key (\<lambda>x. (rtype x, rvalue x)) ys)" using m by simp
    show "inj_on (\<lambda>x::record_info. (rtype x, rvalue x)) (set xs)"
      using key_inj by (rule inj_on_subset) simp
    show "sorted (map (\<lambda>x. (rtype x, rvalue x)) (sort_key (\<lambda>x. (rtype x, rvalue x)) ys))"
      by simp
  qed
  then show "sort_records xs = sort_records ys" by (simp add: sort_records_def)
qed

lemma dict_get_absent: "n \<notin> fst ` set d \<Longrightarrow> dict_get d n dflt = dflt"
  by (simp add: dict_get_def map_of_eq_None_iff [THEN iffD2])

lemma dict_eq_map_of: "dict_eq a b \<Longrightarrow> map_of a k = map_of b k"
proof -
  assume eq: "dict_eq a b"
  show ?thesis
  proof (cases "k \<in> fst ` set a")
    case True
    then have "k \<in> set (map fst a)" by simp
    moreover from eq have "\<forall>k \<in> set (map fst a). map_of a k = map_of b k"
      unfolding dict_eq_def list_all_iff by blast
    ultimately show ?thesis by blast
  next
    case False
    moreover from eq False have "k \<notin> fst ` set b" by (simp add: dict_eq_def)
    ultimately have "map_of a k = None" and "map_of b k = None"
      by (simp_all add: map_of_eq_None_iff)
    then show ?thesis by simp
  qed
qed

lemma dict_eq_no_differs: "dict_eq current previous \<Longrightarrow> \<not> differs previous current n"
  using dict_eq_map_of [of current previous n] by (simp add: differs_def dict_get_def)

lemma all_monitored_names_set:
  "set (all_monitored_names rank previous current) = fst ` set previous \<union> fst ` set current"
  by (simp add: all_monitored_names_def)

lemma all_monitored_names_distinct:
  "distinct (all_monitored_names rank previous current)"
  by (simp add: all_monitored_names_def)

lemma compare_names_events:
  "fst (compare_names cfg tg previous current i ns) =
     map (event_for previous current) (filter (differs previous current) ns)"
  by (induction ns arbitrary: i)
     (simp_all add: Let_def differs_def event_for_def split_beta)

lemma is_telegram_log_send [simp]: "is_telegram_log (send_telegram_message reply)"
  by (cases reply) simp_all

lemma upt_Suc_shift: "[0 ..< Suc m] = 0 # map Suc [0 ..< m]"
  by (simp add: upt_conv_Cons map_Suc_upt del: upt_Suc)

lemma compare_names_sends:
  "filter is_telegram_log (snd (compare_names cfg tg previous current i ns)) =
     map (\<lambda>j. send_telegram_message (tg (i + j)))
       [0 ..< length (fst (compare_names cfg tg previous current i ns))]"
proof (induction ns arbitrary: i)
  case Nil
  show ?case by simp
next
  case (Cons n ns)
  show ?case
  proof (cases "sort_records (dict_get previous n []) = sort_records (dict_get current n [])")
    case True
    with Cons.IH [of i] show ?thesis by simp
  next
    case False
    with Cons.IH [of "Suc i"] show ?thesis
      by (simp add: Let_def split_beta upt_Suc_shift comp_def del: upt_Suc)
  qed
qed

section \<open>One call of the comparison\<close>

lemma detect_first_run:
  "detect cfg rank tg current [] =
     \<lparr>new_state = current, events = [], notified = [], logs = [LogFirstRun, LogInitDone]\<rparr>"
  by (simp add: detect_def)

lemma detect_new_state:
  "new_state (detect cfg rank tg current previous) =
     (if previous = [] \<or> \<not> dict_eq current previous then current else previous)"
  by (simp add: detect_def split_beta)

lemma detect_notified:
  "notified (detect cfg rank tg current previous) =
     map (build_message cfg) (events (detect cfg rank tg current previous))"
  by (simp add: detect_def split_beta)

lemma detect_events:
  "previous \<noteq> [] \<Longrightarrow>
   events (detect cfg rank tg current previous) =
     map (event_for previous current)
       (filter (differs previous current) (all_monitored_names rank previous current))"
proof (cases "dict_eq current previous")
  case True
  assume "previous \<noteq> []"
  moreover have "filter (differs previous current) (all_monitored_names rank previous current) = []"
    using True by (simp add: filter_empty_conv dict_eq_no_differs)
  ultimately show ?thesis using True by (simp add: detect_def)
next
  case False
  assume "previous \<noteq> []"
  then show ?thesis
    using False compare_names_events [of cfg tg previous current 0 "all_monitored_names rank previous current"]
    by (simp add: detect_def split_beta)
qed

lemma compare_names_events_any:
  "fst (compare_names cfg tg previous current i ns) =
   fst (compare_names cfg tg' previous current i' ns)"
  by (simp add: compare_names_events)

lemma detect_events_any:
  "events (detect cfg rank tg current previous) = events (detect cfg rank tg' current previous)"
  using compare_names_events_any [of cfg tg previous current 0 _ tg' 0]
  by (simp add: detect_def split_beta)

lemma detect_sends:
  "filter is_telegram_log (logs (detect cfg rank tg current previous)) =
     map (\<lambda>j. send_telegram_message (tg j))
       [0 ..< length (events (detect cfg rank tg current previous))]"
  using compare_names_sends [of cfg tg previous current 0 "all_monitored_names rank previous current"]
  by (simp add: detect_def split_beta)

lemma check_new_state:
  assumes "check_for_changes cfg reply rank tg previous = Inr r"
  shows "new_state r = previous \<or>
         (\<exists>rs. build_current_records_state (names cfg) rs = Inr (new_state r))"
proof (cases "get_dnspod_records reply")
  case (Pair fetched lg)
  show ?thesis
  proof (cases fetched)
    case None
    with Pair assms show ?thesis by (auto simp: check_for_changes_def)
  next
    case (Some rs)
    with Pair assms obtain cur where b: "build_current_records_state (names cfg) rs = Inr cur"
      and r: "r = (detect cfg rank tg cur previous)
                    \<lparr>logs := LogStart (domain cfg) # lg @ logs (detect cfg rank tg cur previous)\<rparr>"
      by (auto simp: check_for_changes_def Let_def split: sum.splits)
    from r have "new_state r = new_state (detect cfg rank tg cur previous)" by simp
    then have "new_state r = previous \<or> new_state r = cur"
      by (simp add: detect_new_state split: if_splits)
    with b show ?thesis by auto
  qed
qed

lemma check_state_ok:
  "state_ok (names cfg) previous \<Longrightarrow> check_for_changes cfg reply rank tg previous = Inr r \<Longrightarrow>
   state_ok (names cfg) (new_state r)"
  using check_new_state [of cfg reply rank tg previous r] build_state_ok by auto

lemma main_loop_state_ok:
  "state_ok (names cfg) st \<Longrightarrow> main_loop cfg st ins = Inr (fin, res) \<Longrightarrow>
   state_ok (names cfg) fin \<and> list_all (\<lambda>r. state_ok (names cfg) (new_state r)) res"
proof (induction ins arbitrary: st fin res)
  case Nil
  then show ?case by simp
next
  case (Cons inp ins)
  from Cons.prems(2) obtain r fin' res' where
    step: "check_for_changes cfg (dnspod inp) (set_order inp) (telegram_replies inp) st = Inr r"
    and rest: "main_loop cfg (new_state r) ins = Inr (fin', res')"
    and out: "fin = fin'" "res = r # res'"
    by (auto split: sum.splits)
  have ok: "state_ok (names cfg) (new_state r)"
    using check_state_ok [OF Cons.prems(1) step] .
  from Cons.IH [OF ok rest] ok out show ?case by simp
qed

text \<open>
  The first call after process start, on records that have the three fields: no event, no
  notification, and the built state stored.
\<close>

lemma first_call_no_events:
  "list_all well_formed all_records \<Longrightarrow>
   \<exists>current. build_current_records_state (names cfg) all_records = Inr current \<and>
     check_for_changes cfg (Result (Some ''1'') (Some all_records)) rank tg [] =
       Inr \<lparr>new_state = current, events = [], notified = [],
            logs = [LogStart (domain cfg), LogFirstRun, LogInitDone]\<rparr>"
proof -
  assume "list_all well_formed all_records"
  then obtain current where b: "build_current_records_state (names cfg) all_records = Inr current"
    using build_total by blast
  then show ?thesis
    by (simp add: check_for_changes_def detect_first_run)
qed

section \<open>Calls with a non-empty stored state\<close>

text \<open>
  When the stored state is non-empty, the branch of line 142 is not taken. A call without
  event then stores for every name the same records, each as many times as before (a
  missing name counting as the empty list): the old state when the two dicts are equal,
  and the current state otherwise.
\<close>

lemma zero_events_keeps_records:
  "previous \<noteq> [] \<Longrightarrow> events (detect cfg rank tg current previous) = [] \<Longrightarrow>
   (\<forall>n. mset (dict_get (new_state (detect cfg rank tg current previous)) n []) =
        mset (dict_get previous n [])) \<and>
   new_state (detect cfg rank tg current previous) =
     (if dict_eq current previous then previous else current)"
proof -
  assume ne: "previous \<noteq> []" and ev: "events (detect cfg rank tg current previous) = []"
  have st: "new_state (detect cfg rank tg current previous) =
     (if dict_eq current previous then previous else current)"
    using ne by (simp add: detect_new_state)
  have same: "mset (dict_get current n []) = mset (dict_get previous n [])" for n
  proof (cases "n \<in> fst ` set previous \<union> fst ` set current")
    case True
    from ev ne have "filter (differs previous current) (all_monitored_names rank previous current) = []"
      by (simp add: detect_events)
    with True have "\<not> differs previous current n"
      by (simp add: filter_empty_conv all_monitored_names_set)
    then show ?thesis by (simp add: differs_def sort_records_eq_iff)
  next
    case False
    then show ?thesis by (simp add: dict_get_absent)
  qed
  show ?thesis using st same by simp
qed

text \<open>
  In such a call the names of the events are without repetition and are exactly the
  names of the stored or the current state whose sorted lists differ; each event carries
  the sorted old and new lists of its name and is handed to the notifier.
\<close>

lemma one_event_per_changed_name:
  "previous \<noteq> [] \<Longrightarrow>
   distinct (map ev_name (events (detect cfg rank tg current previous))) \<and>
   set (map ev_name (events (detect cfg rank tg current previous))) =
     {n \<in> fst ` set previous \<union> fst ` set current.
        sort_records (dict_get previous n []) \<noteq> sort_records (dict_get current n [])} \<and>
   list_all (\<lambda>e. ev_old e = sort_records (dict_get previous (ev_name e) []) \<and>
                  ev_new e = sort_records (dict_get current (ev_name e) []))
     (events (detect cfg rank tg current previous)) \<and>
   notified (detect cfg rank tg current previous) =
     map (build_message cfg) (events (detect cfg rank tg current previous))"
proof -
  assume ne: "previous \<noteq> []"
  let ?ns = "filter (differs previous current) (all_monitored_names rank previous current)"
  have ev: "events (detect cfg rank tg current previous) = map (event_for previous current) ?ns"
    using ne by (rule detect_events)
  have "map ev_name (map (event_for previous current) xs) = xs" for xs
    by (induction xs) (simp_all add: event_for_def)
  then have names: "map ev_name (events (detect cfg rank tg current previous)) = ?ns"
    by (simp only: ev)
  have d: "distinct ?ns" using all_monitored_names_distinct by simp
  have s: "set ?ns = {n \<in> fst ` set previous \<union> fst ` set current.
        sort_records (dict_get previous n []) \<noteq> sort_records (dict_get current n [])}"
    by (auto simp: all_monitored_names_set differs_def)
  have l: "list_all (\<lambda>e. ev_old e = sort_records (dict_get previous (ev_name e) []) \<and>
                  ev_new e = sort_records (dict_get current (ev_name e) []))
     (events (detect cfg rank tg current previous))"
    by (simp add: ev list_all_iff event_for_def)
  show ?thesis
    using d s l by (simp only: names detect_notified) 
qed

section \<open>The claims\<close>

subsection \<open>C1: the first-run branch after the first call\<close>

text \<open>
  C1 says that once the first call has set the stored state, no later call takes the
  first-run branch of lines 142-146 again, because the marker of the uninitialised state
  differs from an empty snapshot; a later call that meets an empty stored state and a
  different current state reports the changes.

  In main.py the marker is the empty dict itself (line 10, and the test
  \<open>not previous_records_state\<close> of line 142). The run below has three successful
  fetches with \<open>www\<close> and \<open>api\<close> monitored: \<open>www\<close> has one record, then the zone
  holds no monitored record, then \<open>www\<close> has a record again. The first call
  initialises, the second reports the removal and stores the empty state, and the third
  prints the first-run lines again and reports nothing, although its current state
  differs from the stored one.
\<close>

theorem first_run_branch_taken_again:
  "main_loop cfg_example []
     [turn [raw ''www'' ''A'' ''1.1.1.1''],
      turn [raw ''@'' ''NS'' ''ns1.example.net''],
      turn [raw ''www'' ''A'' ''2.2.2.2'']] =
   Inr ([(''www'', [a2])],
        [\<lparr>new_state = [(''www'', [a1])], events = [], notified = [],
          logs = [LogStart ''example.com'', LogFirstRun, LogInitDone]\<rparr>,
         \<lparr>new_state = [],
          events = [\<lparr>ev_name = ''www'', ev_old = [a1], ev_new = []\<rparr>],
          notified = [\<lparr>full_domain = ''www.example.com'', old_display = Lines [a1],
                       new_display = NoRecords\<rparr>],
          logs = [LogStart ''example.com'', LogChanged, LogSubdomainChanged ''www.example.com'',
                  LogTelegramSent]\<rparr>,
         \<lparr>new_state = [(''www'', [a2])], events = [], notified = [],
          logs = [LogStart ''example.com'', LogFirstRun, LogInitDone]\<rparr>])"
  by code_simp

subsection \<open>C2: the stored state after a call without events\<close>

text \<open>
  C2 says that a call in the initialised state that emits no event leaves the stored
  state as it was, the state being replaced only when an event was emitted.

  With a non-empty stored state this holds up to the order of the records of each name
  (\<open>zero_events_keeps_records\<close>). It fails when the stored state is the empty one
  that an earlier call has stored, since the empty dict is also the mark of the
  uninitialised state (line 142). In the run below \<open>www\<close> and \<open>api\<close> are monitored:
  \<open>api\<close> has one record, then the zone holds no monitored record, then \<open>api\<close> has
  another record. The second call stores the empty state; the third emits no event and
  replaces the stored state by one that holds a record for \<open>api\<close>, where the stored
  state held none.
\<close>

theorem empty_state_replaced_without_event:
  "main_loop cfg_example []
     [turn [raw ''api'' ''A'' ''1.1.1.1''],
      turn [raw ''mail'' ''MX'' ''mx.example.com''],
      turn [raw ''api'' ''A'' ''2.2.2.2'']] =
   Inr ([(''api'', [a2])],
        [\<lparr>new_state = [(''api'', [a1])], events = [], notified = [],
          logs = [LogStart ''example.com'', LogFirstRun, LogInitDone]\<rparr>,
         \<lparr>new_state = [],
          events = [\<lparr>ev_name = ''api'', ev_old = [a1], ev_new = []\<rparr>],
          notified = [\<lparr>full_domain = ''api.example.com'', old_display = Lines [a1],
                       new_display = NoRecords\<rparr>],
          logs = [LogStart ''example.com'', LogChanged, LogSubdomainChanged ''api.example.com'',
                  LogTelegramSent]\<rparr>,
         \<lparr>new_state = [(''api'', [a2])], events = [], notified = [],
          logs = [LogStart ''example.com'', LogFirstRun, LogInitDone]\<rparr>]) \<and>
   mset (dict_get [(''api'', [a2])] ''api'' []) \<noteq> mset (dict_get [] ''api'' [])"
  by code_simp

subsection \<open>C3: the first call\<close>

text \<open>
  C3 says that for every non-empty raw record list the first call after process start
  emits no event, sends no notification, stores the state built from the list and leaves
  the uninitialised state.

  The first three hold (\<open>first_call_no_events\<close>). The state after the call is
  initialised only when the built state is non-empty, since the empty dict is the mark of
  the uninitialised state (line 142). In the run below \<open>www\<close> and \<open>api\<close> are
  monitored and the first fetch returns one record, of another name: the first call
  stores the empty state, which is the state of process start, and the second call, whose
  fetch has a record of \<open>www\<close>, prints the first-run lines again and reports nothing.
\<close>

theorem first_call_stays_uninitialised:
  "main_loop cfg_example []
     [turn [raw ''mail'' ''MX'' ''mx.example.com''],
      turn [raw ''mail'' ''MX'' ''mx.example.com'', raw ''www'' ''A'' ''1.1.1.1'']] =
   Inr ([(''www'', [a1])],
        [\<lparr>new_state = [], events = [], notified = [],
          logs = [LogStart ''example.com'', LogFirstRun, LogInitDone]\<rparr>,
         \<lparr>new_state = [(''www'', [a1])], events = [], notified = [],
          logs = [LogStart ''example.com'', LogFirstRun, LogInitDone]\<rparr>])"
  by code_simp

subsection \<open>C4: the order of the records of a name\<close>

text \<open>
  C4: when the current record list of a name is a permutation of its stored list, the
  call emits no event for that name, whatever the other names hold. The comparison sorts
  both lists on \<open>(type, value)\<close> first, and two sorted lists are equal exactly when
  the lists are permutations of each other (\<open>sort_records_eq_iff\<close>).
\<close>

theorem permuted_list_no_event:
  "mset (dict_get current n []) = mset (dict_get previous n []) \<Longrightarrow>
   n \<notin> set (map ev_name (events (detect cfg rank tg current previous)))"
proof -
  assume m: "mset (dict_get current n []) = mset (dict_get previous n [])"
  then have nd: "\<not> differs previous current n"
    by (simp add: differs_def sort_records_eq_iff)
  show ?thesis
  proof (cases "previous = []")
    case True
    then show ?thesis by (simp add: detect_first_run)
  next
    case False
    then show ?thesis using nd by (auto simp: detect_events event_for_def)
  qed
qed

theorem permuted_list_no_event_witness:
  "mset (dict_get [(''www'', [a2, a1]), (''api'', [a1])] ''www'' []) =
     mset (dict_get [(''www'', [a1, a2])] ''www'' []) \<and>
   ''www'' \<notin> set (map ev_name (events
     (detect cfg_example length telegram_ok [(''www'', [a2, a1]), (''api'', [a1])] [(''www'', [a1, a2])])))"
proof -
  have h: "mset (dict_get [(''www'', [a2, a1]), (''api'', [a1])] ''www'' []) =
     mset (dict_get [(''www'', [a1, a2])] ''www'' [])"
    by (simp add: dict_get_def)
  show ?thesis
    using h permuted_list_no_event [OF h] by blast
qed

subsection \<open>C5: one event for each changed name\<close>

text \<open>
  C5 says that a call in the initialised state emits exactly one event for each name of
  the stored or the current state whose sorted lists differ, with the name and its old
  and new lists, and none for a name whose sorted lists are equal.

  With a non-empty stored state this holds (\<open>one_event_per_changed_name\<close>). It
  fails when the stored state is the empty one that an earlier call has stored (line
  142). In the run below \<open>www\<close> and \<open>api\<close> are monitored: \<open>www\<close> has one record,
  then the zone holds no monitored record, then \<open>www\<close> and \<open>api\<close> have one record
  each. The second call stores the empty state; in the third the sorted lists of both
  names differ from the stored ones, and no event is emitted.
\<close>

theorem changed_names_without_event:
  "main_loop cfg_example []
     [turn [raw ''www'' ''A'' ''1.1.1.1''],
      turn [raw ''mail'' ''MX'' ''mx.example.com''],
      turn [raw ''www'' ''A'' ''2.2.2.2'', raw ''api'' ''A'' ''1.1.1.1'']] =
   Inr ([(''www'', [a2]), (''api'', [a1])],
        [\<lparr>new_state = [(''www'', [a1])], events = [], notified = [],
          logs = [LogStart ''example.com'', LogFirstRun, LogInitDone]\<rparr>,
         \<lparr>new_state = [],
          events = [\<lparr>ev_name = ''www'', ev_old = [a1], ev_new = []\<rparr>],
          notified = [\<lparr>full_domain = ''www.example.com'', old_display = Lines [a1],
                       new_display = NoRecords\<rparr>],
          logs = [LogStart ''example.com'', LogChanged, LogSubdomainChanged ''www.example.com'',
                  LogTelegramSent]\<rparr>,
         \<lparr>new_state = [(''www'', [a2]), (''api'', [a1])], events = [], notified = [],
          logs = [LogStart ''example.com'', LogFirstRun, LogInitDone]\<rparr>]) \<and>
   sort_records (dict_get [] ''www'' []) \<noteq>
     sort_records (dict_get [(''www'', [a2]), (''api'', [a1])] ''www'' []) \<and>
   sort_records (dict_get [] ''api'' []) \<noteq>
     sort_records (dict_get [(''www'', [a2]), (''api'', [a1])] ''api'' [])"
  by code_simp

subsection \<open>C6: the builder\<close>

text \<open>
  C6: the builder is a function of the record list and the monitored names. On records
  that have the three fields it returns a state; and a state it returns has each key
  once, maps a monitored name carried by at least one record to the \<open>{type, value}\<close>
  pairs of exactly those records, in their order and with their repetitions, and has no
  entry for any other name: a name that is not monitored, or a monitored name without
  record, is missing, and no key has an empty list.
\<close>

theorem builder_filters_and_groups:
  "(list_all well_formed all_records \<longrightarrow>
      (\<exists>cur. build_current_records_state ns all_records = Inr cur)) \<and>
   (\<forall>cur. build_current_records_state ns all_records = Inr cur \<longrightarrow>
      distinct (map fst cur) \<and>
      (\<forall>n. if n \<in> set ns \<and> records_named n all_records \<noteq> []
           then \<exists>es. map_of cur n = Some es \<and> es \<noteq> [] \<and>
                  map Some es = map record_info_of (records_named n all_records)
           else map_of cur n = None) \<and>
      (\<forall>n es. (n, es) \<in> set cur \<longrightarrow> es \<noteq> []))"
proof (intro conjI allI impI)
  assume "list_all well_formed all_records"
  then show "\<exists>cur. build_current_records_state ns all_records = Inr cur"
    by (rule build_total)
next
  fix cur assume b: "build_current_records_state ns all_records = Inr cur"
  show "distinct (map fst cur)" by (rule build_distinct [OF b])
next
  fix cur n assume b: "build_current_records_state ns all_records = Inr cur"
  show "if n \<in> set ns \<and> records_named n all_records \<noteq> []
        then \<exists>es. map_of cur n = Some es \<and> es \<noteq> [] \<and>
               map Some es = map record_info_of (records_named n all_records)
        else map_of cur n = None"
  proof (cases "n \<in> set ns \<and> records_named n all_records \<noteq> []")
    case True
    with build_map_of [OF b, of n] obtain es where
      es: "map_of cur n = Some es" "map Some es = map record_info_of (records_named n all_records)"
      by blast
    from es(1) have "(n, es) \<in> set cur" by (rule map_of_SomeD)
    with build_entry [OF b] have "es \<noteq> []" by blast
    with es True show ?thesis by auto
  next
    case False
    with build_map_of [OF b, of n] show ?thesis by auto
  qed
next
  fix cur n es assume b: "build_current_records_state ns all_records = Inr cur"
    and "(n, es) \<in> set cur"
  then show "es \<noteq> []" using build_entry by blast
qed

theorem builder_filters_and_groups_witness:
  "list_all well_formed
     [raw ''www'' ''A'' ''1.1.1.1'', raw ''mail'' ''MX'' ''mx.example.com'',
      raw ''www'' ''A'' ''1.1.1.1''] \<and>
   build_current_records_state [''www'', ''api'']
     [raw ''www'' ''A'' ''1.1.1.1'', raw ''mail'' ''MX'' ''mx.example.com'',
      raw ''www'' ''A'' ''1.1.1.1''] = Inr [(''www'', [a1, a1])] \<and>
   distinct (map fst [(''www'', [a1, a1])]) \<and>
   map_of [(''www'', [a1, a1])] ''api'' = None \<and>
   map_of [(''www'', [a1, a1])] ''mail'' = None"
proof -
  have h: "list_all well_formed
     [raw ''www'' ''A'' ''1.1.1.1'', raw ''mail'' ''MX'' ''mx.example.com'',
      raw ''www'' ''A'' ''1.1.1.1'']"
    by code_simp
  have b: "build_current_records_state [''www'', ''api'']
     [raw ''www'' ''A'' ''1.1.1.1'', raw ''mail'' ''MX'' ''mx.example.com'',
      raw ''www'' ''A'' ''1.1.1.1''] = Inr [(''www'', [a1, a1])]"
    by code_simp
  show ?thesis
    using h b builder_filters_and_groups
      [of "[raw ''www'' ''A'' ''1.1.1.1'', raw ''mail'' ''MX'' ''mx.example.com'',
            raw ''www'' ''A'' ''1.1.1.1'']" "[''www'', ''api'']"]
    by simp
qed

subsection \<open>C7: a failed fetch\<close>

text \<open>
  C7: \<open>get_dnspod_records\<close> returns \<open>None\<close> for a request exception, for a
  body that is not JSON and for every status code other than \<open>"1"\<close>, and for no
  other reply. The call of \<open>check_for_changes\<close> then returns with the stored state
  untouched, no event and no notification; it prints the start line, the line of the
  fetch error and the line that the check is skipped, and none of the lines of the
  comparison: its result depends neither on the iteration order nor on Telegram.
\<close>

theorem fetch_failure_skips_cycle:
  "(fst (get_dnspod_records reply) = None \<longleftrightarrow> (\<forall>records. reply \<noteq> Result (Some ''1'') records)) \<and>
   (fst (get_dnspod_records reply) = None \<longrightarrow>
      check_for_changes cfg reply rank tg previous =
        Inr \<lparr>new_state = previous, events = [], notified = [],
             logs = LogStart (domain cfg) # snd (get_dnspod_records reply) @ [LogFetchFailed]\<rparr>)"
proof -
  have a: "fst (get_dnspod_records reply) = None \<longleftrightarrow> (\<forall>records. reply \<noteq> Result (Some ''1'') records)"
    by (cases reply) auto
  have b: "fst (get_dnspod_records reply) = None \<longrightarrow>
      check_for_changes cfg reply rank tg previous =
        Inr \<lparr>new_state = previous, events = [], notified = [],
             logs = LogStart (domain cfg) # snd (get_dnspod_records reply) @ [LogFetchFailed]\<rparr>"
    by (cases "get_dnspod_records reply") (simp add: check_for_changes_def)
  from a b show ?thesis by (rule conjI)
qed

theorem fetch_failure_skips_cycle_witness:
  "fst (get_dnspod_records (Result (Some ''10'') None)) = None \<and>
   check_for_changes cfg_example (Result (Some ''10'') None) length telegram_ok [(''www'', [a1])] =
     Inr \<lparr>new_state = [(''www'', [a1])], events = [], notified = [],
          logs = [LogStart ''example.com'', LogApiError, LogFetchFailed]\<rparr>"
proof -
  have h: "fst (get_dnspod_records (Result (Some ''10'') None)) = None" by simp
  show ?thesis
    using h fetch_failure_skips_cycle
      [of "Result (Some ''10'') None" cfg_example length telegram_ok "[(''www'', [a1])]"]
    by (simp add: cfg_example_def)
qed

subsection \<open>C8: a failing notifier\<close>

text \<open>
  C8: whatever Telegram replies to each message (an exception of the request, or a
  response that is not a success), the state stored at the end of the call, the events
  and the messages handed to the notifier are those of a call in which every message is
  accepted; and the notifier is called once for each event, the \<open>j\<close>-th call printing
  the line for the \<open>j\<close>-th reply.
\<close>

theorem notifier_failure_is_ignored:
  "new_state (detect cfg rank tg current previous) =
     new_state (detect cfg rank telegram_ok current previous) \<and>
   events (detect cfg rank tg current previous) =
     events (detect cfg rank telegram_ok current previous) \<and>
   notified (detect cfg rank tg current previous) =
     map (build_message cfg) (events (detect cfg rank telegram_ok current previous)) \<and>
   filter is_telegram_log (logs (detect cfg rank tg current previous)) =
     map (\<lambda>j. send_telegram_message (tg j))
       [0 ..< length (events (detect cfg rank telegram_ok current previous))]"
  using detect_events_any [of cfg rank tg current previous telegram_ok]
  by (simp add: detect_new_state detect_notified detect_sends)

theorem notifier_failure_is_ignored_witness:
  "events (detect cfg_example length telegram_down [(''www'', [a2]), (''api'', [a1])] [(''www'', [a1])]) =
     [\<lparr>ev_name = ''www'', ev_old = [a1], ev_new = [a2]\<rparr>,
      \<lparr>ev_name = ''api'', ev_old = [], ev_new = [a1]\<rparr>] \<and>
   new_state (detect cfg_example length telegram_down [(''www'', [a2]), (''api'', [a1])] [(''www'', [a1])]) =
     [(''www'', [a2]), (''api'', [a1])] \<and>
   filter is_telegram_log
     (logs (detect cfg_example length telegram_down [(''www'', [a2]), (''api'', [a1])] [(''www'', [a1])])) =
     [LogTelegramRequestError, LogTelegramFailed]"
proof -
  have e: "events (detect cfg_example length telegram_ok [(''www'', [a2]), (''api'', [a1])] [(''www'', [a1])]) =
     [\<lparr>ev_name = ''www'', ev_old = [a1], ev_new = [a2]\<rparr>,
      \<lparr>ev_name = ''api'', ev_old = [], ev_new = [a1]\<rparr>]"
    by code_simp
  have s: "new_state (detect cfg_example length telegram_ok [(''www'', [a2]), (''api'', [a1])] [(''www'', [a1])]) =
     [(''www'', [a2]), (''api'', [a1])]"
    by code_simp
  have l: "map (\<lambda>j. send_telegram_message (telegram_down j)) [0 ..< length
      [\<lparr>ev_name = ''www'', ev_old = [a1], ev_new = [a2]\<rparr>,
       \<lparr>ev_name = ''api'', ev_old = [], ev_new = [a1]\<rparr>]] =
     [LogTelegramRequestError, LogTelegramFailed]"
    by code_simp
  show ?thesis
    using e s l notifier_failure_is_ignored
      [of cfg_example length telegram_down "[(''www'', [a2]), (''api'', [a1])]" "[(''www'', [a1])]"]
    by simp
qed

subsection \<open>C9: lookup failures of the builder\<close>

text \<open>
  C9: the builder fails with a KeyError exactly when the list has a record without
  \<open>name\<close>, or a record with a monitored name and without \<open>type\<close> or \<open>value\<close>. For
  one record: without \<open>name\<close> the lookup fails whatever the monitored names are; with a
  name and without \<open>type\<close> or \<open>value\<close> it fails exactly when the name is monitored;
  and a record whose name is not monitored is skipped, its other fields unread.
\<close>

theorem lookup_failure_iff_monitored:
  "((\<exists>e. build_current_records_state ns all_records = Inl e) \<longleftrightarrow>
      list_ex (lookup_fails ns) all_records) \<and>
   (map_of r ''name'' = None \<longrightarrow> add_record ns st r = Inl (KeyError ''name'')) \<and>
   (map_of r ''name'' = Some n \<and> (map_of r ''type'' = None \<or> map_of r ''value'' = None) \<longrightarrow>
      ((\<exists>e. add_record ns st r = Inl e) \<longleftrightarrow> n \<in> set ns)) \<and>
   (map_of r ''name'' = Some n \<and> n \<notin> set ns \<longrightarrow> add_record ns st r = Inr st)"
proof (intro conjI impI)
  show "(\<exists>e. build_current_records_state ns all_records = Inl e) \<longleftrightarrow>
      list_ex (lookup_fails ns) all_records"
    using add_records_fails_iff [of ns "[]" all_records]
    by (simp add: build_current_records_state_def)
next
  assume "map_of r ''name'' = None"
  then show "add_record ns st r = Inl (KeyError ''name'')"
    by (simp add: add_record_def getitem_def)
next
  assume "map_of r ''name'' = Some n \<and> (map_of r ''type'' = None \<or> map_of r ''value'' = None)"
  then show "(\<exists>e. add_record ns st r = Inl e) \<longleftrightarrow> n \<in> set ns"
    using add_record_fails_iff [of ns st r] by (auto simp: lookup_fails_def)
next
  assume "map_of r ''name'' = Some n \<and> n \<notin> set ns"
  then show "add_record ns st r = Inr st"
    by (simp add: add_record_def getitem_def)
qed

theorem lookup_failure_iff_monitored_witness:
  "list_ex (lookup_fails [''www''])
     [[(''name'', ''mail''), (''type'', ''MX'')], [(''name'', ''www''), (''type'', ''A'')]] \<and>
   (\<exists>e. build_current_records_state [''www'']
     [[(''name'', ''mail''), (''type'', ''MX'')], [(''name'', ''www''), (''type'', ''A'')]] = Inl e) \<and>
   add_record [''www''] [] [(''name'', ''mail''), (''type'', ''MX'')] = Inr [] \<and>
   add_record [''www''] [] [(''type'', ''A''), (''value'', ''1.1.1.1'')] = Inl (KeyError ''name'') \<and>
   (\<exists>e. add_record [''www''] [] [(''name'', ''www''), (''type'', ''A'')] = Inl e)"
proof -
  have h: "list_ex (lookup_fails [''www''])
     [[(''name'', ''mail''), (''type'', ''MX'')], [(''name'', ''www''), (''type'', ''A'')]]"
    by code_simp
  have m: "map_of [(''name'', ''mail''), (''type'', ''MX'')] ''name'' = Some ''mail'' \<and>
    ''mail'' \<notin> set [''www'']" by simp
  have n: "map_of [(''type'', ''A''), (''value'', ''1.1.1.1'')] ''name'' = None" by simp
  have w: "map_of [(''name'', ''www''), (''type'', ''A'')] ''name'' = Some ''www'' \<and>
    (map_of [(''name'', ''www''), (''type'', ''A'')] ''type'' = None \<or>
     map_of [(''name'', ''www''), (''type'', ''A'')] ''value'' = None)" by simp
  have i: "''www'' \<in> set [''www'']" by simp
  show ?thesis
    using h
      lookup_failure_iff_monitored
        [of "[''www'']" "[[(''name'', ''mail''), (''type'', ''MX'')], [(''name'', ''www''), (''type'', ''A'')]]"
          "[(''name'', ''mail''), (''type'', ''MX'')]" "[]" "''mail''"] m
      lookup_failure_iff_monitored
        [of "[''www'']" "[]" "[(''type'', ''A''), (''value'', ''1.1.1.1'')]" "[]" "''x''"] n
      lookup_failure_iff_monitored
        [of "[''www'']" "[]" "[(''name'', ''www''), (''type'', ''A'')]" "[]" "''www''"] w i
    by blast
qed

subsection \<open>C10: the invariant of the stored state\<close>

text \<open>
  C10: the empty dict of process start satisfies the invariant, and from a stored state
  that satisfies it every run of the main loop that returns stores only states that
  satisfy it: the state after each call, and the last one. Every key of a stored state is
  a monitored name with a non-empty list, since a state is only ever replaced by one that
  the builder returned for the configured names.
\<close>

theorem baseline_invariant:
  "state_ok (names cfg) st \<Longrightarrow> main_loop cfg st inputs = Inr (final, results) \<Longrightarrow>
   state_ok (names cfg) [] \<and> state_ok (names cfg) final \<and>
   list_all (\<lambda>r. state_ok (names cfg) (new_state r)) results"
  using main_loop_state_ok [of cfg st inputs final results]
  by (simp add: state_ok_def)

theorem baseline_invariant_witness:
  "state_ok (names cfg_example) [] \<and>
   main_loop cfg_example []
     [turn [raw ''www'' ''A'' ''1.1.1.1'', raw ''mail'' ''MX'' ''mx.example.com''],
      turn [raw ''www'' ''A'' ''2.2.2.2'']] =
   Inr ([(''www'', [a2])],
        [\<lparr>new_state = [(''www'', [a1])], events = [], notified = [],
          logs = [LogStart ''example.com'', LogFirstRun, LogInitDone]\<rparr>,
         \<lparr>new_state = [(''www'', [a2])],
          events = [\<lparr>ev_name = ''www'', ev_old = [a1], ev_new = [a2]\<rparr>],
          notified = [\<lparr>full_domain = ''www.example.com'', old_display = Lines [a1],
                       new_display = Lines [a2]\<rparr>],
          logs = [LogStart ''example.com'', LogChanged, LogSubdomainChanged ''www.example.com'',
                  LogTelegramSent]\<rparr>]) \<and>
   state_ok (names cfg_example) [(''www'', [a2])]"
proof -
  have init: "state_ok (names cfg_example) []" by (simp add: state_ok_def)
  have run: "main_loop cfg_example []
     [turn [raw ''www'' ''A'' ''1.1.1.1'', raw ''mail'' ''MX'' ''mx.example.com''],
      turn [raw ''www'' ''A'' ''2.2.2.2'']] =
   Inr ([(''www'', [a2])],
        [\<lparr>new_state = [(''www'', [a1])], events = [], notified = [],
          logs = [LogStart ''example.com'', LogFirstRun, LogInitDone]\<rparr>,
         \<lparr>new_state = [(''www'', [a2])],
          events = [\<lparr>ev_name = ''www'', ev_old = [a1], ev_new = [a2]\<rparr>],
          notified = [\<lparr>full_domain = ''www.example.com'', old_display = Lines [a1],
                       new_display = Lines [a2]\<rparr>],
          logs = [LogStart ''example.com'', LogChanged, LogSubdomainChanged ''www.example.com'',
                  LogTelegramSent]\<rparr>])"
    by code_simp
  show ?thesis
    using init run baseline_invariant [OF init run] by blast
qed

end
